theory Spec2Isabelle
  imports Main "HOL-Library.Sublist"
begin

section \<open>Python strings\<close>

text \<open>
  A Python \<open>str\<close> is modelled as a \<open>string\<close>; a character stands for a code point
  below 256. The characters the harvester treats specially are named here.
\<close>

definition LF :: char where
  "LF = CHR 0x0A"

definition CR :: char where
  "CR = CHR 0x0D"

definition quotechar :: char where
  "quotechar = CHR 0x22"

definition delimiter :: char where
  "delimiter = CHR 0x2C"

definition lineterminator :: string where
  "lineterminator = [CR, LF]"

text \<open>
  \<open>str.isspace\<close> on one character, for the code points below 256: TAB, LF, VT, FF, CR,
  FS, GS, RS, US, SPACE, NEL and NBSP.
\<close>

definition isspace :: "char \<Rightarrow> bool" where
  "isspace c =
     (let n = of_char c :: nat
      in (9 \<le> n \<and> n \<le> 13) \<or> (28 \<le> n \<and> n \<le> 32) \<or> n = 133 \<or> n = 160)"

definition lstrip :: "string \<Rightarrow> string" where
  "lstrip s = dropWhile isspace s"

definition rstrip :: "string \<Rightarrow> string" where
  "rstrip s = rev (dropWhile isspace (rev s))"

text \<open>\<open>s.strip()\<close>\<close>

definition strip :: "string \<Rightarrow> string" where
  "strip s = rstrip (lstrip s)"

text \<open>\<open>s.rstrip(chars)\<close>\<close>

definition rstrip_chars :: "string \<Rightarrow> string \<Rightarrow> string" where
  "rstrip_chars chars s = rev (dropWhile (\<lambda>c. c \<in> set chars) (rev s))"

text \<open>\<open>s.startswith(p)\<close>\<close>

definition startswith :: "string \<Rightarrow> string \<Rightarrow> bool" where
  "startswith s p = (take (length p) s = p)"

text \<open>\<open>sep.join(xs)\<close>\<close>

fun join :: "string \<Rightarrow> string list \<Rightarrow> string" where
  "join sep [] = []"
| "join sep [x] = x"
| "join sep (x # y # ys) = x @ sep @ join sep (y # ys)"

text \<open>\<open>s.replace(old, new)\<close> for a one-character \<open>old\<close>\<close>

definition replace :: "char \<Rightarrow> string \<Rightarrow> string \<Rightarrow> string" where
  "replace old new s = concat (map (\<lambda>c. if c = old then new else [c]) s)"

section \<open>Files\<close>

text \<open>
  Iterating over a text file opened with \<open>newline=""\<close>: a line ends after LF, after
  CR LF, or after a CR that no LF follows, and keeps its ending. \<open>cur\<close> is the line
  read so far.
\<close>

fun iter_lines :: "string \<Rightarrow> string \<Rightarrow> string list" where
  "iter_lines cur [] = (if cur = [] then [] else [cur])"
| "iter_lines cur [c] = [cur @ [c]]"
| "iter_lines cur (c # d # ds) =
     (if c = CR \<and> d = LF then (cur @ [c, d]) # iter_lines [] ds
      else if c = CR \<or> c = LF then (cur @ [c]) # iter_lines [] (d # ds)
      else iter_lines (cur @ [c]) (d # ds))"

text \<open>
  A file opened with the default \<open>newline=None\<close> translates CR LF and CR to LF before
  the lines are split.
\<close>

fun universal_newlines :: "string \<Rightarrow> string" where
  "universal_newlines [] = []"
| "universal_newlines [c] = (if c = CR then [LF] else [c])"
| "universal_newlines (c # d # ds) =
     (if c = CR \<and> d = LF then LF # universal_newlines ds
      else if c = CR then LF # universal_newlines (d # ds)
      else c # universal_newlines (d # ds))"

text \<open>
  A path on disk is \<open>None\<close> when no file exists there and \<open>Some text\<close> otherwise.
\<close>

type_synonym path = "string option"

definition read_text :: "path \<Rightarrow> string" where
  "read_text p = (case p of None \<Rightarrow> [] | Some text \<Rightarrow> text)"

section \<open>The csv writer\<close>

text \<open>
  \<open>csv.writer(f)\<close> with the default dialect: delimiter comma, quote character the
  double quote, doubled quotes inside a quoted field, minimal quoting, CR LF after
  every row. A field is quoted when it holds the delimiter, the quote character or a
  character of the line terminator.
\<close>

definition needs_quoting :: "char \<Rightarrow> bool" where
  "needs_quoting c = (c = delimiter \<or> c = quotechar \<or> c \<in> set lineterminator)"

definition join_append :: "string \<Rightarrow> string" where
  "join_append field =
     (if list_ex needs_quoting field
      then [quotechar] @ replace quotechar [quotechar, quotechar] field @ [quotechar]
      else field)"

definition writerow :: "string list \<Rightarrow> string" where
  "writerow row =
     (if row = [[]] then [quotechar, quotechar]
      else join [delimiter] (map join_append row)) @ lineterminator"

section \<open>The log\<close>

text \<open>A headline record is the tuple \<open>(date, domain, title, link)\<close>.\<close>

type_synonym entry = "string \<times> string \<times> string \<times> string"

definition load_existing_lines :: "path \<Rightarrow> string set" where
  "load_existing_lines p =
     (case p of
        None \<Rightarrow> {}
      | Some text \<Rightarrow> set (map (rstrip_chars [LF]) (iter_lines [] text)))"

text \<open>The line that \<open>append_entries_to_csv\<close> builds for the duplicate test.\<close>

definition canonical_line :: "entry \<Rightarrow> string" where
  "canonical_line e =
     (case e of (date, domain, title, link) \<Rightarrow>
        join [delimiter]
          [date, domain,
           [quotechar] @ replace quotechar [quotechar, quotechar] title @ [quotechar],
           [quotechar] @ link @ [quotechar]])"

text \<open>
  The loop of \<open>append_entries_to_csv\<close>: \<open>existing_lines\<close> is the set, \<open>f\<close> the text of
  the file opened for appending, \<open>new_count\<close> the counter.
\<close>

fun append_loop :: "string set \<Rightarrow> string \<Rightarrow> nat \<Rightarrow> entry list \<Rightarrow> string \<times> nat" where
  "append_loop existing_lines f new_count [] = (f, new_count)"
| "append_loop existing_lines f new_count ((date, domain, title, link) # entries) =
     (let row = [date, domain, title, link];
          line = canonical_line (date, domain, title, link)
      in if line \<in> existing_lines
         then append_loop existing_lines f new_count entries
         else append_loop (insert line existing_lines) (f @ writerow row)
                (new_count + 1) entries)"

text \<open>
  \<open>append_entries_to_csv(path, entries)\<close> returns the file as it is afterwards and
  \<open>new_count\<close>. Opening in mode \<open>"a"\<close> creates a missing file. Directories are not
  modelled, so \<open>mkdir\<close> has no counterpart.
\<close>

definition append_entries_to_csv :: "path \<Rightarrow> entry list \<Rightarrow> path \<times> nat" where
  "append_entries_to_csv p entries =
     (let existing_lines = load_existing_lines p;
          (f, new_count) = append_loop existing_lines (read_text p) 0 entries
      in (Some f, new_count))"

section \<open>The outlets file\<close>

text \<open>
  The exceptions that leave a function of the harvester uncaught: a missing outlets
  file, and the \<open>ValueError\<close> of \<open>urljoin\<close> on a reference it cannot parse.
\<close>

datatype py_error = FileNotFoundError | ValueError

text \<open>
  The loop of \<open>read_outlet_urls\<close> over the lines of the file, which is opened with the
  default newline translation.
\<close>

fun outlet_loop :: "string list \<Rightarrow> string list" where
  "outlet_loop [] = []"
| "outlet_loop (raw # rest) =
     (let line = strip raw
      in if line = [] \<or> startswith line ''#'' then outlet_loop rest
         else if startswith line ''http://'' \<or> startswith line ''https://''
         then line # outlet_loop rest
         else outlet_loop rest)"

definition read_outlet_urls :: "path \<Rightarrow> py_error + string list" where
  "read_outlet_urls p =
     (case p of
        None \<Rightarrow> Inl FileNotFoundError
      | Some text \<Rightarrow> Inr (outlet_loop (iter_lines [] (universal_newlines text))))"

section \<open>The libraries and the network\<close>

text \<open>
  What \<open>requests.get\<close> followed by \<open>raise_for_status\<close> gives: the text of the
  exception, or the response with its bytes (\<open>resp.content\<close>) and its decoded text
  (\<open>resp.text\<close>).
\<close>

record response =
  resp_content :: string
  resp_text :: string

text \<open>
  An entry of \<open>feedparser.parse(...).entries\<close>: the keys the harvester reads, \<open>None\<close>
  for a key the entry does not have.
\<close>

record feed_entry =
  entry_title :: "string option"
  entry_link :: "string option"
  published_parsed :: "int list option"
  updated_parsed :: "int list option"
  created_parsed :: "int list option"

text \<open>
  The tree \<open>BeautifulSoup(text, "html.parser")\<close> builds: a tag with its name, its
  attribute dictionary and its children, or a string of text.
\<close>

datatype html = Tag string "(string \<times> string) list" "html list" | NavigableString string

text \<open>
  The harvester calls into requests, feedparser, BeautifulSoup, urllib and datetime,
  and reads the clock. None of them is part of the repository: they are parameters of
  the model.
  \<^item> \<open>requests_get url\<close>: \<open>Inl\<close> the exception's text, \<open>Inr\<close> the response;
  \<^item> \<open>feedparser_entries content\<close>: \<open>feedparser.parse(content).entries\<close>;
  \<^item> \<open>BeautifulSoup text\<close>: the root of the parsed tree;
  \<^item> \<open>urljoin base url\<close>: \<open>urllib.parse.urljoin\<close>, \<open>None\<close> when it raises \<open>ValueError\<close>
    (as it does on the reference \<open>http://[::1\<close>);
  \<^item> \<open>urlparse_netloc url\<close>: \<open>urlparse(url).netloc\<close>, \<open>None\<close> when it raises;
  \<^item> \<open>date_today\<close>: \<open>dt.date.today().isoformat()\<close>, taken as fixed during a run;
  \<^item> \<open>datetime_date_iso args\<close>: \<open>dt.datetime(*args).date().isoformat()\<close>, \<open>None\<close>
    when the constructor raises;
  \<^item> \<open>OUTLETS_FILE\<close>: the path of the outlets file as printed.
\<close>

record env =
  requests_get :: "string \<Rightarrow> string + response"
  feedparser_entries :: "string \<Rightarrow> feed_entry list"
  BeautifulSoup :: "string \<Rightarrow> html"
  urljoin :: "string \<Rightarrow> string \<Rightarrow> string option"
  urlparse_netloc :: "string \<Rightarrow> string option"
  date_today :: string
  datetime_date_iso :: "int list \<Rightarrow> string option"
  OUTLETS_FILE :: string

definition MAX_ITEMS_PER_SOURCE :: nat where
  "MAX_ITEMS_PER_SOURCE = 50"

definition today_iso :: "env \<Rightarrow> string" where
  "today_iso E = date_today E"

definition domain_from_url :: "env \<Rightarrow> string \<Rightarrow> string" where
  "domain_from_url E url = (case urlparse_netloc E url of None \<Rightarrow> [] | Some netloc \<Rightarrow> netloc)"

text \<open>\<open>str(n)\<close> for the lengths that are printed.\<close>

fun str_nat :: "nat \<Rightarrow> string" where
  "str_nat n =
     (if n < 10 then [char_of (48 + n)]
      else str_nat (n div 10) @ [char_of (48 + n mod 10)])"

declare str_nat.simps [simp del]

text \<open>
  \<open>fetch_url\<close> catches every exception of the request, prints a warning and returns
  \<open>None\<close>. The second component is what was printed.
\<close>

definition fetch_url :: "env \<Rightarrow> string \<Rightarrow> response option \<times> string list" where
  "fetch_url E url =
     (case requests_get E url of
        Inl e \<Rightarrow> (None, [''[WARN] Failed to fetch '' @ url @ '': '' @ e])
      | Inr resp \<Rightarrow> (Some resp, []))"

section \<open>RSS / Atom handling\<close>

text \<open>
  The inner loop of \<open>harvest_rss\<close> over the three date keys: the first value that is
  truthy and that \<open>dt.datetime\<close> accepts gives the date, otherwise \<open>pub_date\<close> stays.
\<close>

fun date_loop :: "env \<Rightarrow> string \<Rightarrow> int list option list \<Rightarrow> string" where
  "date_loop E pub_date [] = pub_date"
| "date_loop E pub_date (None # keys) = date_loop E pub_date keys"
| "date_loop E pub_date (Some v # keys) =
     (if v = [] then date_loop E pub_date keys
      else (case datetime_date_iso E (take 6 v) of
              None \<Rightarrow> date_loop E pub_date keys
            | Some d \<Rightarrow> d))"

definition get_or_empty :: "string option \<Rightarrow> string" where
  "get_or_empty v = (case v of None \<Rightarrow> [] | Some s \<Rightarrow> s)"

fun rss_loop :: "env \<Rightarrow> string \<Rightarrow> feed_entry list \<Rightarrow> entry list" where
  "rss_loop E source_domain [] = []"
| "rss_loop E source_domain (e # rest) =
     (let title = strip (get_or_empty (entry_title e));
          link = strip (get_or_empty (entry_link e))
      in if title = [] \<or> link = [] then rss_loop E source_domain rest
         else (let pub_date =
                     date_loop E (today_iso E)
                       [published_parsed e, updated_parsed e, created_parsed e]
               in (pub_date, source_domain, title, link) # rss_loop E source_domain rest))"

definition harvest_rss :: "env \<Rightarrow> string \<Rightarrow> response \<Rightarrow> entry list" where
  "harvest_rss E url resp =
     (let parsed_entries = feedparser_entries E (resp_content resp)
      in if parsed_entries = [] then []
         else (let source_domain = domain_from_url E url
               in rss_loop E source_domain (take MAX_ITEMS_PER_SOURCE parsed_entries)))"

section \<open>Generic HTML scraping\<close>

text \<open>The descendants of a node, in document order.\<close>

fun descendants :: "html \<Rightarrow> html list" where
  "descendants (Tag name attrs children) = concat (map (\<lambda>c. c # descendants c) children)"
| "descendants (NavigableString s) = []"

fun is_tag :: "string \<Rightarrow> html \<Rightarrow> bool" where
  "is_tag name (Tag n attrs children) = (n = name)"
| "is_tag name (NavigableString s) = False"

text \<open>\<open>tag[key]\<close>, \<open>None\<close> where Python raises KeyError.\<close>

fun get_attr :: "html \<Rightarrow> string \<Rightarrow> string option" where
  "get_attr (Tag n attrs children) key = map_of attrs key"
| "get_attr (NavigableString s) key = None"

text \<open>\<open>node.find_all(name)\<close>\<close>

definition find_all :: "html \<Rightarrow> string \<Rightarrow> html list" where
  "find_all node name = filter (is_tag name) (descendants node)"

text \<open>\<open>node.find("a", href=True)\<close>: the first descendant \<open>a\<close> that has an \<open>href\<close>.\<close>

definition find_a_href :: "html \<Rightarrow> html option" where
  "find_a_href node =
     List.find (\<lambda>d. is_tag ''a'' d \<and> get_attr d ''href'' \<noteq> None) (descendants node)"

text \<open>
  \<open>node.get_text(strip=True)\<close>: the strings below the node, each stripped, empty ones
  left out, joined with nothing between them.
\<close>

fun stripped_string :: "html \<Rightarrow> string" where
  "stripped_string (NavigableString s) = strip s"
| "stripped_string (Tag n attrs children) = []"

definition get_text_strip :: "html \<Rightarrow> string" where
  "get_text_strip node = concat (map stripped_string (descendants node))"

text \<open>
  The body shared by the two candidate loops of \<open>harvest_html\<close>. The branch where
  \<open>a["href"]\<close> is missing cannot be reached: \<open>find\<close> returns a tag that has it.
\<close>

fun candidate_loop :: "html list \<Rightarrow> (string \<times> string) list" where
  "candidate_loop [] = []"
| "candidate_loop (tag # rest) =
     (case find_a_href tag of
        None \<Rightarrow> candidate_loop rest
      | Some a \<Rightarrow>
          (let title = get_text_strip a
           in (case get_attr a ''href'' of
                 None \<Rightarrow> candidate_loop rest
               | Some href \<Rightarrow>
                   if title \<noteq> [] \<and> href \<noteq> [] then (title, href) # candidate_loop rest
                   else candidate_loop rest)))"

definition article_candidates :: "html \<Rightarrow> (string \<times> string) list" where
  "article_candidates soup = candidate_loop (find_all soup ''article'')"

definition headline_candidates :: "html \<Rightarrow> (string \<times> string) list" where
  "headline_candidates soup =
     concat (map (\<lambda>tag_name. candidate_loop (find_all soup tag_name)) [''h1'', ''h2'', ''h3''])"

text \<open>
  The last loop of \<open>harvest_html\<close>, with its set \<open>seen\<close>. Nothing catches the
  exception of \<open>urljoin\<close>: it ends the loop and the function.
\<close>

fun normalize_loop ::
  "env \<Rightarrow> string \<Rightarrow> string \<Rightarrow> string \<Rightarrow> (string \<times> string) set \<Rightarrow>
     (string \<times> string) list \<Rightarrow> py_error + entry list"
where
  "normalize_loop E url today source_domain seen [] = Inr []"
| "normalize_loop E url today source_domain seen ((title, href) # rest) =
     (case urljoin E url href of
        None \<Rightarrow> Inl ValueError
      | Some link \<Rightarrow>
          (let key = (title, link)
           in if key \<in> seen then normalize_loop E url today source_domain seen rest
              else (case normalize_loop E url today source_domain (insert key seen) rest of
                      Inl err \<Rightarrow> Inl err
                    | Inr entries \<Rightarrow> Inr ((today, source_domain, title, link) # entries))))"

definition harvest_html :: "env \<Rightarrow> string \<Rightarrow> response \<Rightarrow> py_error + entry list" where
  "harvest_html E url resp =
     (let today = today_iso E;
          source_domain = domain_from_url E url;
          soup = BeautifulSoup E (resp_text resp);
          candidates = article_candidates soup;
          candidates = (if candidates = [] then headline_candidates soup else candidates)
      in normalize_loop E url today source_domain {} (take MAX_ITEMS_PER_SOURCE candidates))"

section \<open>Core harvest logic\<close>

text \<open>
  \<open>harvest_one_url\<close> and \<open>harvest_all_outlets\<close> return the entries and the lines they
  print, or the exception that ends them. \<open>dry_run\<close> is passed on and never read.
\<close>

definition harvest_one_url ::
  "env \<Rightarrow> string \<Rightarrow> bool \<Rightarrow> py_error + entry list \<times> string list"
where
  "harvest_one_url E url dry_run =
     (case fetch_url E url of
        (None, out) \<Rightarrow> Inr ([], out)
      | (Some resp, out) \<Rightarrow>
          (let rss_entries = harvest_rss E url resp
           in if rss_entries \<noteq> []
              then Inr (rss_entries,
                        out @ [''[INFO] '' @ url @ '' -> RSS/Atom: ''
                                 @ str_nat (length rss_entries) @ '' entries''])
              else (case harvest_html E url resp of
                      Inl err \<Rightarrow> Inl err
                    | Inr html_entries \<Rightarrow>
                        Inr (html_entries,
                             out @ [''[INFO] '' @ url @ '' -> HTML fallback: ''
                                      @ str_nat (length html_entries) @ '' entries'']))))"

text \<open>The loop of \<open>harvest_all_outlets\<close>: an exception of one outlet ends it.\<close>

fun outlets_loop ::
  "env \<Rightarrow> bool \<Rightarrow> string list \<Rightarrow> py_error + entry list \<times> string list"
where
  "outlets_loop E dry_run [] = Inr ([], [])"
| "outlets_loop E dry_run (url # urls) =
     (case harvest_one_url E url dry_run of
        Inl err \<Rightarrow> Inl err
      | Inr (entries, out) \<Rightarrow>
          (case outlets_loop E dry_run urls of
             Inl err \<Rightarrow> Inl err
           | Inr (all_entries, out') \<Rightarrow> Inr (entries @ all_entries, out @ out')))"

definition harvest_all_outlets ::
  "env \<Rightarrow> path \<Rightarrow> bool \<Rightarrow> py_error + entry list \<times> string list"
where
  "harvest_all_outlets E outlets dry_run =
     (case read_outlet_urls outlets of
        Inl err \<Rightarrow> Inl err
      | Inr urls \<Rightarrow>
          (let out = [''[INFO] Using outlets file: '' @ OUTLETS_FILE E]
           in if urls = []
              then Inr ([], out @ [''[ERROR] No URLs found in outlets file.''])
              else (case outlets_loop E dry_run urls of
                      Inl err \<Rightarrow> Inl err
                    | Inr (all_entries, out') \<Rightarrow> Inr (all_entries, out @ out'))))"

section \<open>Reading the log back\<close>

text \<open>
  The harvester never parses its log. To state what a written row means, this is the
  reader of the same dialect (\<open>csv.reader\<close> with its defaults), as the state machine
  that consumes one character at a time: the state, the field being read and the
  fields already saved.
\<close>

datatype reader_state =
  START_RECORD | START_FIELD | IN_FIELD | IN_QUOTED_FIELD | QUOTE_IN_QUOTED_FIELD | EAT_CRNL

definition start_field :: "string \<Rightarrow> string list \<Rightarrow> char \<Rightarrow> reader_state \<times> string \<times> string list" where
  "start_field fld flds c =
     (if c = LF \<or> c = CR then (EAT_CRNL, [], flds @ [fld])
      else if c = quotechar then (IN_QUOTED_FIELD, fld, flds)
      else if c = delimiter then (START_FIELD, [], flds @ [fld])
      else (IN_FIELD, fld @ [c], flds))"

fun parse_process_char ::
  "reader_state \<Rightarrow> string \<Rightarrow> string list \<Rightarrow> char \<Rightarrow> reader_state \<times> string \<times> string list"
where
  "parse_process_char START_RECORD fld flds c =
     (if c = LF \<or> c = CR then (EAT_CRNL, fld, flds) else start_field fld flds c)"
| "parse_process_char START_FIELD fld flds c = start_field fld flds c"
| "parse_process_char IN_FIELD fld flds c =
     (if c = LF \<or> c = CR then (EAT_CRNL, [], flds @ [fld])
      else if c = delimiter then (START_FIELD, [], flds @ [fld])
      else (IN_FIELD, fld @ [c], flds))"
| "parse_process_char IN_QUOTED_FIELD fld flds c =
     (if c = quotechar then (QUOTE_IN_QUOTED_FIELD, fld, flds)
      else (IN_QUOTED_FIELD, fld @ [c], flds))"
| "parse_process_char QUOTE_IN_QUOTED_FIELD fld flds c =
     (if c = quotechar then (IN_QUOTED_FIELD, fld @ [c], flds)
      else if c = delimiter then (START_FIELD, [], flds @ [fld])
      else if c = LF \<or> c = CR then (EAT_CRNL, [], flds @ [fld])
      else (IN_FIELD, fld @ [c], flds))"
| "parse_process_char EAT_CRNL fld flds c = (EAT_CRNL, fld, flds)"

text \<open>
  Reading one record: the characters are consumed until a record ends outside
  quotes; the LF of a CR LF ending belongs to the same line and is consumed with it.
  The result is the record and the text left. At the end of the text a field that was
  begun is saved.
\<close>

fun read_record ::
  "reader_state \<Rightarrow> string \<Rightarrow> string list \<Rightarrow> string \<Rightarrow> string list \<times> string"
where
  "read_record st fld flds [] =
     (if st = START_RECORD \<or> st = EAT_CRNL then (flds, []) else (flds @ [fld], []))"
| "read_record st fld flds (c # cs) =
     (case parse_process_char st fld flds c of
        (st', fld', flds') \<Rightarrow>
          if st' = EAT_CRNL
          then (flds', if c = CR \<and> take 1 cs = [LF] then drop 1 cs else cs)
          else read_record st' fld' flds' cs)"

definition csv_reader_next :: "string \<Rightarrow> string list \<times> string" where
  "csv_reader_next text = read_record START_RECORD [] [] text"

text \<open>Reading a whole text: record after record until nothing is left.\<close>

function csv_reader_all :: "string \<Rightarrow> string list list" where
  "csv_reader_all s =
     (if s = [] then []
      else (case csv_reader_next s of (row, rest) \<Rightarrow> row # csv_reader_all rest))"
  by pat_completeness auto
termination
proof (relation "measure length")
  show "wf (measure length)" by simp
next
  fix s :: string and row rest
  assume ne: "s \<noteq> []" and r: "(row, rest) = csv_reader_next s"
  have shorter: "cs \<noteq> [] \<Longrightarrow> length (snd (read_record st fld flds cs)) < length cs"
    for cs st fld flds
  proof (induction cs arbitrary: st fld flds)
    case Nil
    then show ?case by simp
  next
    case (Cons c cs)
    obtain st' fld' flds' where p: "parse_process_char st fld flds c = (st', fld', flds')"
      by (cases "parse_process_char st fld flds c") auto
    show ?case
    proof (cases "st' = EAT_CRNL")
      case True
      with p show ?thesis by auto
    next
      case False
      show ?thesis
      proof (cases "cs = []")
        case True
        with p False show ?thesis by simp
      next
        case ne: False
        from Cons.IH [OF ne, of st' fld' flds'] p False show ?thesis by simp
      qed
    qed
  qed
  from shorter [OF ne, of START_RECORD "[]" "[]"] r [symmetric]
  have "length rest < length s"
    by (simp add: csv_reader_next_def)
  then show "(rest, s) \<in> measure length" by simp
qed

declare csv_reader_all.simps [simp del]

text \<open>The row that \<open>append_entries_to_csv\<close> hands to the writer for a record.\<close>

definition entry_row :: "entry \<Rightarrow> string list" where
  "entry_row e = (case e of (date, domain, title, link) \<Rightarrow> [date, domain, title, link])"

section \<open>Example inputs\<close>

text \<open>A record whose title holds quote characters: \<open>say "hi"\<close>.\<close>

definition quoted_entry :: entry where
  "quoted_entry =
     (''2024-01-01'', ''example.com'', ''say '' @ [quotechar] @ ''hi'' @ [quotechar],
      ''https://example.com/a'')"

text \<open>A record whose title holds the delimiter.\<close>

definition new_entry :: entry where
  "new_entry = (''2024-01-02'', ''example.com'', ''World, again'', ''https://example.com/b'')"

text \<open>A log of one row, as the writer leaves it.\<close>

definition one_row_log :: path where
  "one_row_log = Some (''2024-01-01,example.com,Hello,https://example.com/a'' @ [CR, LF])"

text \<open>
  A small world: \<open>https://example.com/feed\<close> serves a feed of two entries, the second
  without a title; \<open>https://example.com/\<close> serves a page with one article and one
  headline; every other request fails.
\<close>

definition feed_response :: response where
  "feed_response = \<lparr>resp_content = ''feed'', resp_text = ''feed''\<rparr>"

definition page_response :: response where
  "page_response = \<lparr>resp_content = ''page'', resp_text = ''page''\<rparr>"

definition example_feed :: "feed_entry list" where
  "example_feed =
     [\<lparr>entry_title = Some '' Story '', entry_link = Some ''/story'',
       published_parsed = Some [2024, 1, 2, 3, 4, 5, 1, 2, 0],
       updated_parsed = None, created_parsed = None\<rparr>,
      \<lparr>entry_title = None, entry_link = Some ''https://example.com/untitled'',
       published_parsed = None, updated_parsed = None, created_parsed = None\<rparr>]"

definition example_soup :: html where
  "example_soup =
     Tag ''[document]'' []
       [Tag ''article'' []
          [Tag ''a'' [(''href'', ''/story'')] [NavigableString '' Story '']],
        Tag ''h2'' []
          [Tag ''a'' [(''href'', ''/other'')] [NavigableString ''Other'']]]"

definition example_env :: env where
  "example_env =
     \<lparr>requests_get =
        (\<lambda>url. if url = ''https://example.com/feed'' then Inr feed_response
              else if url = ''https://example.com/'' then Inr page_response
              else Inl ''timed out''),
      feedparser_entries = (\<lambda>content. if content = ''feed'' then example_feed else []),
      BeautifulSoup = (\<lambda>text. example_soup),
      urljoin =
        (\<lambda>base url. if startswith url ''/'' then Some (''https://example.com'' @ url)
                   else Some url),
      urlparse_netloc = (\<lambda>url. Some ''example.com''),
      date_today = ''2024-01-01'',
      datetime_date_iso =
        (\<lambda>args. if args = [2024, 1, 2, 3, 4, 5] then Some ''2024-01-02'' else None),
      OUTLETS_FILE = ''outlets_rss.txt''\<rparr>"

text \<open>
  The same world with a feed parser that finds one entry, without a title, in
  whatever it is given.
\<close>

definition untitled_env :: env where
  "untitled_env =
     example_env
       \<lparr>feedparser_entries :=
          (\<lambda>content.
             [\<lparr>entry_title = None, entry_link = Some ''https://example.com/untitled'',
               published_parsed = None, updated_parsed = None, created_parsed = None\<rparr>])\<rparr>"

text \<open>
  The same world with a page whose only article links to \<open>http://[::1\<close>, a reference
  that \<open>urljoin\<close> refuses.
\<close>

definition broken_soup :: html where
  "broken_soup =
     Tag ''[document]'' []
       [Tag ''article'' []
          [Tag ''a'' [(''href'', ''http://[::1'')] [NavigableString ''Broken'']]]"

definition broken_env :: env where
  "broken_env =
     example_env
       \<lparr>BeautifulSoup := (\<lambda>text. broken_soup),
        urljoin :=
          (\<lambda>base url. if url = ''http://[::1'' then None else urljoin example_env base url)\<rparr>"

text \<open>
  An outlets file: a comment, a blank line, the feed, a line that is no http URL, an
  outlet that is down and the page.
\<close>

definition example_outlets :: string where
  "example_outlets =
     ''# outlets'' @ [LF] @ [LF] @ ''  https://example.com/feed  '' @ [CR, LF]
       @ ''ftp://example.com/x'' @ [LF] @ ''http://down.example/rss'' @ [LF]
       @ ''https://example.com/''"

section \<open>The reader inverts the writer\<close>

lemma special_chars_distinct [simp]:
  "delimiter \<noteq> quotechar" "delimiter \<noteq> CR" "delimiter \<noteq> LF"
  "quotechar \<noteq> CR" "quotechar \<noteq> LF" "CR \<noteq> LF"
  "quotechar \<noteq> delimiter" "CR \<noteq> delimiter" "LF \<noteq> delimiter"
  "CR \<noteq> quotechar" "LF \<noteq> quotechar" "LF \<noteq> CR"
  by (simp_all add: delimiter_def quotechar_def CR_def LF_def)

text \<open>An unquoted field is read character by character.\<close>

lemma read_unquoted:
  "\<not> list_ex needs_quoting s \<Longrightarrow>
   read_record IN_FIELD fld flds (s @ rest) = read_record IN_FIELD (fld @ s) flds rest"
  by (induction s arbitrary: fld)
     (auto simp: needs_quoting_def lineterminator_def)

text \<open>Inside quotes, every doubled quote is read as one quote.\<close>

lemma read_quoted:
  "read_record IN_QUOTED_FIELD fld flds
     (replace quotechar [quotechar, quotechar] s @ quotechar # rest) =
   read_record QUOTE_IN_QUOTED_FIELD (fld @ s) flds rest"
  by (induction s arbitrary: fld) (auto simp: replace_def)

lemma read_field_open:
  assumes "st = START_FIELD \<or> st = START_RECORD"
    and "s \<noteq> [] \<or> list_ex needs_quoting s"
  shows "\<exists>st'. (st' = IN_FIELD \<or> st' = QUOTE_IN_QUOTED_FIELD) \<and>
           read_record st [] flds (join_append s @ c # rest) =
           read_record st' s flds (c # rest)"
proof (cases "list_ex needs_quoting s")
  case True
  have "read_record st [] flds (join_append s @ c # rest) =
        read_record QUOTE_IN_QUOTED_FIELD s flds (c # rest)"
    using assms(1) True read_quoted [of "[]" flds s "c # rest"]
    by (auto simp: join_append_def start_field_def)
  then show ?thesis by blast
next
  case False
  with assms(2) obtain d ds where s: "s = d # ds"
    by (cases s) auto
  with False have d: "\<not> needs_quoting d" and ds: "\<not> list_ex needs_quoting ds"
    by auto
  from d have "d \<noteq> delimiter" "d \<noteq> quotechar" "d \<noteq> CR" "d \<noteq> LF"
    by (auto simp: needs_quoting_def lineterminator_def)
  then have "read_record st [] flds (join_append s @ c # rest) =
        read_record IN_FIELD s flds (c # rest)"
    using assms(1) False s read_unquoted [OF ds, of "[d]" flds "c # rest"]
    by (auto simp: join_append_def start_field_def)
  then show ?thesis by blast
qed

lemma read_field_delimiter:
  assumes "st = START_FIELD \<or> st = START_RECORD"
  shows "read_record st [] flds (join_append s @ delimiter # rest) =
         read_record START_FIELD [] (flds @ [s]) rest"
proof (cases "s \<noteq> [] \<or> list_ex needs_quoting s")
  case True
  from read_field_open [OF assms True, of flds delimiter rest]
  show ?thesis by auto
next
  case False
  then show ?thesis using assms
    by (auto simp: join_append_def start_field_def)
qed

lemma read_field_end:
  assumes "st = START_FIELD \<or> (st = START_RECORD \<and> s \<noteq> [])"
  shows "read_record st [] flds (join_append s @ CR # LF # rest) = (flds @ [s], rest)"
proof (cases "s \<noteq> [] \<or> list_ex needs_quoting s")
  case True
  from assms have "st = START_FIELD \<or> st = START_RECORD" by blast
  from read_field_open [OF this True, of flds CR "LF # rest"]
  show ?thesis by auto
next
  case False
  then show ?thesis using assms
    by (auto simp: join_append_def start_field_def)
qed

lemma read_row:
  "row \<noteq> [] \<Longrightarrow>
   read_record START_FIELD [] flds
     (join [delimiter] (map join_append row) @ CR # LF # rest) =
   (flds @ row, rest)"
proof (induction row arbitrary: flds)
  case Nil
  then show ?case by simp
next
  case (Cons s row)
  show ?case
  proof (cases row)
    case Nil
    then show ?thesis using read_field_end [of START_FIELD s flds rest] by simp
  next
    case (Cons t ts)
    then show ?thesis
      using read_field_delimiter [of START_FIELD flds s] Cons.IH [of "flds @ [s]"]
      by simp
  qed
qed

text \<open>Whatever row the writer writes, the reader reads that row back and stops after it.\<close>

lemma csv_roundtrip: "csv_reader_next (writerow row @ rest) = (row, rest)"
proof (cases row)
  case Nil
  then show ?thesis
    by (simp add: csv_reader_next_def writerow_def lineterminator_def)
next
  case (Cons s ts)
  show ?thesis
  proof (cases ts)
    case Nil
    show ?thesis
    proof (cases "s = []")
      case True
      with Nil Cons show ?thesis
        by (simp add: csv_reader_next_def writerow_def lineterminator_def start_field_def)
    next
      case False
      with Nil Cons show ?thesis
        using read_field_end [of START_RECORD s "[]" rest]
        by (simp add: csv_reader_next_def writerow_def lineterminator_def)
    qed
  next
    case (Cons t us)
    with \<open>row = s # ts\<close> show ?thesis
      using read_field_delimiter [of START_RECORD "[]" s] read_row [of "t # us" "[s]" rest]
      by (simp add: csv_reader_next_def writerow_def lineterminator_def)
  qed
qed

section \<open>Properties of the log\<close>

lemma append_entries_to_csv_loop:
  "append_entries_to_csv p entries =
     (Some (fst (append_loop (load_existing_lines p) (read_text p) 0 entries)),
      snd (append_loop (load_existing_lines p) (read_text p) 0 entries))"
  by (simp add: append_entries_to_csv_def split: prod.splits)

text \<open>
  What one call writes: the rows of a subsequence of the entries, one for every
  comparison line that was not among the existing lines, and no comparison line twice.
\<close>

lemma append_loop_written:
  "\<exists>written. subseq written es \<and>
     canonical_line ` set written = canonical_line ` set es - ex \<and>
     distinct (map canonical_line written) \<and>
     append_loop ex f n es =
       (f @ concat (map (writerow \<circ> entry_row) written), n + length written)"
proof (induction es arbitrary: ex f n)
  case Nil
  show ?case by simp
next
  case (Cons e es)
  obtain date domain title link where e: "e = (date, domain, title, link)"
    by (cases e) auto
  show ?case
  proof (cases "canonical_line e \<in> ex")
    case True
    from Cons.IH [of ex f n] obtain written where w:
      "subseq written es" "canonical_line ` set written = canonical_line ` set es - ex"
      "distinct (map canonical_line written)"
      "append_loop ex f n es =
         (f @ concat (map (writerow \<circ> entry_row) written), n + length written)"
      by blast
    from w(1) have "subseq written (e # es)" by (rule list_emb_Cons)
    moreover from w(2) True
    have "canonical_line ` set written = canonical_line ` set (e # es) - ex" by auto
    moreover from w(4) True e
    have "append_loop ex f n (e # es) =
         (f @ concat (map (writerow \<circ> entry_row) written), n + length written)"
      by (simp add: Let_def)
    ultimately show ?thesis using w(3) by blast
  next
    case False
    let ?row = "writerow [date, domain, title, link]"
    from Cons.IH [of "insert (canonical_line e) ex" "f @ ?row" "n + 1"]
    obtain written where w:
      "subseq written es"
      "canonical_line ` set written = canonical_line ` set es - insert (canonical_line e) ex"
      "distinct (map canonical_line written)"
      "append_loop (insert (canonical_line e) ex) (f @ ?row) (n + 1) es =
         ((f @ ?row) @ concat (map (writerow \<circ> entry_row) written), n + 1 + length written)"
      by blast
    from w(1) have "subseq (e # written) (e # es)" by simp
    moreover from w(2) False
    have "canonical_line ` set (e # written) = canonical_line ` set (e # es) - ex" by auto
    moreover from w(2,3) have "distinct (map canonical_line (e # written))" by auto
    moreover from w(4) False e
    have "append_loop ex f n (e # es) =
         (f @ concat (map (writerow \<circ> entry_row) (e # written)), n + length (e # written))"
      by (simp add: Let_def entry_row_def)
    ultimately show ?thesis by blast
  qed
qed

lemma writerow_nonempty: "writerow row \<noteq> []"
  by (simp add: writerow_def lineterminator_def)

lemma csv_reader_all_rows:
  "csv_reader_all (concat (map writerow rows)) = rows"
proof (induction rows)
  case Nil
  show ?case by (simp add: csv_reader_all.simps)
next
  case (Cons row rows)
  have "csv_reader_all (writerow row @ concat (map writerow rows)) =
        row # csv_reader_all (concat (map writerow rows))"
    using writerow_nonempty [of row] csv_roundtrip [of row "concat (map writerow rows)"]
    by (subst csv_reader_all.simps) simp
  with Cons.IH show ?case by simp
qed

text \<open>Text that ends a line splits into lines where it ends.\<close>

lemma iter_lines_append:
  "f \<noteq> [] \<Longrightarrow> last f = LF \<Longrightarrow>
   iter_lines cur (f @ w) = iter_lines cur f @ iter_lines [] w"
proof (induction cur f rule: iter_lines.induct)
  case (1 cur)
  then show ?case by simp
next
  case (2 cur c)
  then show ?case by (cases w) auto
next
  case (3 cur c d ds)
  show ?case
  proof (cases "ds = []")
    case True
    with 3 show ?thesis by (cases w) auto
  next
    case False
    with 3 show ?thesis by auto
  qed
qed

text \<open>
  The same for text that ends in a bare CR, when what follows does not begin with LF;
  a row never begins with LF.
\<close>

lemma iter_lines_append_cr:
  "f \<noteq> [] \<Longrightarrow> last f = CR \<Longrightarrow> w = [] \<or> hd w \<noteq> LF \<Longrightarrow>
   iter_lines cur (f @ w) = iter_lines cur f @ iter_lines [] w"
proof (induction cur f rule: iter_lines.induct)
  case (1 cur)
  then show ?case by simp
next
  case (2 cur c)
  then show ?case by (cases w) auto
next
  case (3 cur c d ds)
  show ?case
  proof (cases "ds = []")
    case True
    with 3 show ?thesis by (cases w) auto
  next
    case False
    with 3 show ?thesis by auto
  qed
qed

lemma hd_join_append: "join_append s \<noteq> [] \<Longrightarrow> hd (join_append s) \<noteq> LF"
proof (cases "list_ex needs_quoting s")
  case True
  then show ?thesis by (simp add: join_append_def)
next
  case False
  assume "join_append s \<noteq> []"
  with False obtain c cs where s: "s = c # cs" by (cases s) (auto simp: join_append_def)
  with False have "\<not> needs_quoting c" by simp
  then have "c \<noteq> LF" by (auto simp: needs_quoting_def lineterminator_def)
  with False s show ?thesis by (simp add: join_append_def)
qed

lemma hd_entry_row: "writerow (entry_row e) \<noteq> [] \<and> hd (writerow (entry_row e)) \<noteq> LF"
proof -
  obtain date domain title link where e: "e = (date, domain, title, link)"
    by (cases e) auto
  show ?thesis
  proof (cases "join_append date = []")
    case True
    with e show ?thesis by (simp add: writerow_def entry_row_def)
  next
    case False
    with hd_join_append [OF False] e show ?thesis
      by (simp add: writerow_def entry_row_def)
  qed
qed

lemma hd_written:
  "concat (map (writerow \<circ> entry_row) written) = [] \<or>
   hd (concat (map (writerow \<circ> entry_row) written)) \<noteq> LF"
proof (cases written)
  case Nil
  then show ?thesis by simp
next
  case (Cons e es)
  with hd_entry_row [of e] show ?thesis by simp
qed

text \<open>
  C1. Re-running against an unchanged feed should add no row. On the code it does: the
  empty log and one record, appended twice. The first call writes the row and returns
  1; the second call, on the log the first one left, writes the same row again and
  returns 1. The writer leaves \<open>2024-01-01,example.com,Hello,https://example.com/a\<close>
  followed by CR LF, the line loaded from it keeps the CR, and the line built for the
  comparison quotes the title and the link: the two never agree.
\<close>

theorem rerun_adds_rows_again:
  "append_entries_to_csv None
     [(''2024-01-01'', ''example.com'', ''Hello'', ''https://example.com/a'')] =
     (Some (''2024-01-01,example.com,Hello,https://example.com/a'' @ [CR, LF]), 1) \<and>
   append_entries_to_csv
     (Some (''2024-01-01,example.com,Hello,https://example.com/a'' @ [CR, LF]))
     [(''2024-01-01'', ''example.com'', ''Hello'', ''https://example.com/a'')] =
     (Some (''2024-01-01,example.com,Hello,https://example.com/a'' @ [CR, LF]
            @ ''2024-01-01,example.com,Hello,https://example.com/a'' @ [CR, LF]), 1)"
  by code_simp

text \<open>
  C2. No two lines of the log should stand for the same tuple. On the code they do:
  after two appends of one record to a log that exists and is empty, the log has two
  lines, and both read back as the tuple
  \<open>(2024-01-01, example.com, Hello, https://example.com/a)\<close>.
\<close>

theorem rerun_duplicates_tuple:
  "map (\<lambda>line. fst (csv_reader_next line))
     (iter_lines []
        (read_text (fst (append_entries_to_csv
           (fst (append_entries_to_csv (Some [])
              [(''2024-01-01'', ''example.com'', ''Hello'', ''https://example.com/a'')]))
           [(''2024-01-01'', ''example.com'', ''Hello'', ''https://example.com/a'')])))) =
   [[''2024-01-01'', ''example.com'', ''Hello'', ''https://example.com/a''],
    [''2024-01-01'', ''example.com'', ''Hello'', ''https://example.com/a'']]"
  by code_simp

text \<open>
  C4. A title with quote characters round-trips through the persisted format. Whatever
  the log and the entries of a call, \<open>append_entries_to_csv\<close> appends the rows of the
  records it writes (a subsequence of the entries, one record for every comparison
  line that was not in the log; their number is returned), and the appended text
  reads back, by the rules of the csv dialect, as exactly the four fields of each of
  these records in order: the third field of every row read is the title of the
  record, unchanged. This holds for every title, with or without quotes.
\<close>

theorem written_rows_roundtrip:
  "\<exists>written.
     subseq written entries \<and>
     canonical_line ` set written = canonical_line ` set entries - load_existing_lines p \<and>
     append_entries_to_csv p entries =
       (Some (read_text p @ concat (map (writerow \<circ> entry_row) written)), length written) \<and>
     csv_reader_all (concat (map (writerow \<circ> entry_row) written)) = map entry_row written \<and>
     map (\<lambda>row. row ! 2) (csv_reader_all (concat (map (writerow \<circ> entry_row) written))) =
       map (\<lambda>(date, domain, title, link). title) written"
proof -
  from append_loop_written [of entries "load_existing_lines p" "read_text p" 0]
  obtain written where w: "subseq written entries"
    "canonical_line ` set written = canonical_line ` set entries - load_existing_lines p"
    "append_loop (load_existing_lines p) (read_text p) 0 entries =
       (read_text p @ concat (map (writerow \<circ> entry_row) written), 0 + length written)"
    by blast
  from w(3) have a: "append_entries_to_csv p entries =
       (Some (read_text p @ concat (map (writerow \<circ> entry_row) written)), length written)"
    by (simp add: append_entries_to_csv_loop)
  have r: "csv_reader_all (concat (map (writerow \<circ> entry_row) written)) = map entry_row written"
    using csv_reader_all_rows [of "map entry_row written"] by (simp add: comp_def)
  have "map (\<lambda>row. row ! 2) (map entry_row written) =
        map (\<lambda>(date, domain, title, link). title) written"
    by (simp add: entry_row_def split_def)
  with w(1,2) a r show ?thesis by metis
qed

theorem written_rows_roundtrip_witness:
  "(\<exists>written.
     subseq written [new_entry, quoted_entry, quoted_entry] \<and>
     canonical_line ` set written =
       canonical_line ` set [new_entry, quoted_entry, quoted_entry] - load_existing_lines one_row_log \<and>
     append_entries_to_csv one_row_log [new_entry, quoted_entry, quoted_entry] =
       (Some (read_text one_row_log @ concat (map (writerow \<circ> entry_row) written)), length written) \<and>
     csv_reader_all (concat (map (writerow \<circ> entry_row) written)) = map entry_row written \<and>
     map (\<lambda>row. row ! 2) (csv_reader_all (concat (map (writerow \<circ> entry_row) written))) =
       map (\<lambda>(date, domain, title, link). title) written) \<and>
   snd (append_entries_to_csv one_row_log [new_entry, quoted_entry, quoted_entry]) = 2 \<and>
   csv_reader_all (drop (length (read_text one_row_log))
      (read_text (fst (append_entries_to_csv one_row_log [new_entry, quoted_entry, quoted_entry])))) =
     [[''2024-01-02'', ''example.com'', ''World, again'', ''https://example.com/b''],
      [''2024-01-01'', ''example.com'', ''say '' @ [quotechar] @ ''hi'' @ [quotechar],
       ''https://example.com/a'']]"
proof -
  have "snd (append_entries_to_csv one_row_log [new_entry, quoted_entry, quoted_entry]) = 2"
    by code_simp
  moreover have "csv_reader_all (drop (length (read_text one_row_log))
      (read_text (fst (append_entries_to_csv one_row_log [new_entry, quoted_entry, quoted_entry])))) =
     [[''2024-01-02'', ''example.com'', ''World, again'', ''https://example.com/b''],
      [''2024-01-01'', ''example.com'', ''say '' @ [quotechar] @ ''hi'' @ [quotechar],
       ''https://example.com/a'']]"
    by code_simp
  ultimately show ?thesis
    using written_rows_roundtrip [of "[new_entry, quoted_entry, quoted_entry]" one_row_log]
    by blast
qed

text \<open>
  C9, as amended. The log is append-only: whatever the file held before, and whatever
  the entries, the text of the file before \<open>append_entries_to_csv\<close> is a prefix of
  its text afterwards. When the file was empty, or its text ended with LF or CR, or
  the call wrote nothing, its lines, in their order, are the first lines of the file
  afterwards.
\<close>

theorem log_append_only:
  "prefix (read_text p) (read_text (fst (append_entries_to_csv p entries))) \<and>
   (read_text p = [] \<or> last (read_text p) = LF \<or> last (read_text p) = CR \<or>
    snd (append_entries_to_csv p entries) = 0 \<longrightarrow>
      prefix (iter_lines [] (read_text p))
        (iter_lines [] (read_text (fst (append_entries_to_csv p entries)))))"
proof -
  from append_loop_written [of entries "load_existing_lines p" "read_text p" 0]
  obtain written where
    "append_loop (load_existing_lines p) (read_text p) 0 entries =
       (read_text p @ concat (map (writerow \<circ> entry_row) written), 0 + length written)"
    by blast
  then have a: "append_entries_to_csv p entries =
       (Some (read_text p @ concat (map (writerow \<circ> entry_row) written)), length written)"
    by (simp add: append_entries_to_csv_loop)
  let ?w = "concat (map (writerow \<circ> entry_row) written)"
  from a have t: "read_text (fst (append_entries_to_csv p entries)) = read_text p @ ?w"
    by (simp add: read_text_def)
  have "prefix (iter_lines [] (read_text p)) (iter_lines [] (read_text p @ ?w))"
    if h: "read_text p = [] \<or> last (read_text p) = LF \<or> last (read_text p) = CR \<or>
        snd (append_entries_to_csv p entries) = 0"
  proof (cases "read_text p = [] \<or> written = []")
    case True
    then show ?thesis by auto
  next
    case False
    with h a have "last (read_text p) = LF \<or> last (read_text p) = CR" by simp
    then show ?thesis
    proof
      assume "last (read_text p) = LF"
      with False show ?thesis by (simp add: iter_lines_append)
    next
      assume "last (read_text p) = CR"
      with False hd_written [of written] show ?thesis by (simp add: iter_lines_append_cr)
    qed
  qed
  with t show ?thesis by simp
qed

theorem log_append_only_witness:
  "prefix (read_text one_row_log)
     (read_text (fst (append_entries_to_csv one_row_log [quoted_entry, new_entry]))) \<and>
   (read_text one_row_log = [] \<or> last (read_text one_row_log) = LF \<or>
    last (read_text one_row_log) = CR \<or>
    snd (append_entries_to_csv one_row_log [quoted_entry, new_entry]) = 0) \<and>
   prefix (iter_lines [] (read_text one_row_log))
     (iter_lines [] (read_text (fst (append_entries_to_csv one_row_log [quoted_entry, new_entry]))))"
proof -
  have h: "read_text one_row_log = [] \<or> last (read_text one_row_log) = LF \<or>
    last (read_text one_row_log) = CR \<or>
    snd (append_entries_to_csv one_row_log [quoted_entry, new_entry]) = 0"
    by (simp add: one_row_log_def read_text_def)
  from log_append_only [of one_row_log "[quoted_entry, new_entry]"] h show ?thesis by blast
qed

text \<open>
  C9 as stated fails for a log whose last line has no line ending: the first row
  appended continues that line, so the line that existed is not a line of the file
  afterwards.
\<close>

theorem unterminated_line_continued:
  "iter_lines [] (read_text (Some ''2024-01-01,example.com,Hello,https://example.com/a'')) =
     [''2024-01-01,example.com,Hello,https://example.com/a''] \<and>
   iter_lines []
     (read_text (fst (append_entries_to_csv
        (Some ''2024-01-01,example.com,Hello,https://example.com/a'')
        [(''2024-01-02'', ''example.com'', ''World'', ''https://example.com/b'')]))) =
     [''2024-01-01,example.com,Hello,https://example.com/a2024-01-02,example.com,World,https://example.com/b''
        @ [CR, LF]] \<and>
   \<not> prefix
     (iter_lines [] (read_text (Some ''2024-01-01,example.com,Hello,https://example.com/a'')))
     (iter_lines []
       (read_text (fst (append_entries_to_csv
          (Some ''2024-01-01,example.com,Hello,https://example.com/a'')
          [(''2024-01-02'', ''example.com'', ''World'', ''https://example.com/b'')]))))"
  by code_simp

section \<open>Properties of the extraction\<close>

lemma length_rss_loop: "length (rss_loop E source_domain es) \<le> length es"
  by (induction es) (auto simp: Let_def)

lemma length_normalize_loop:
  "normalize_loop E url today source_domain seen cs = Inr entries \<Longrightarrow>
   length entries \<le> length cs"
proof (induction cs arbitrary: seen entries)
  case Nil
  then show ?case by simp
next
  case (Cons c cs)
  obtain t h where c: "c = (t, h)" by (cases c) auto
  from Cons.prems c obtain link where u: "urljoin E url h = Some link"
    by (cases "urljoin E url h") auto
  show ?case
  proof (cases "(t, link) \<in> seen")
    case True
    with Cons.prems c u
    have "normalize_loop E url today source_domain seen cs = Inr entries"
      by simp
    from Cons.IH [OF this] show ?thesis by simp
  next
    case False
    with Cons.prems c u obtain es where
      es: "normalize_loop E url today source_domain (insert (t, link) seen) cs = Inr es"
      and e: "entries = (today, source_domain, t, link) # es"
      by (auto simp: Let_def split: sum.splits)
    from Cons.IH [OF es] e show ?thesis by simp
  qed
qed

text \<open>
  C5. Results are capped per source: whatever the feed or the page holds,
  \<open>harvest_rss\<close> returns at most \<open>MAX_ITEMS_PER_SOURCE\<close> records, so does
  \<open>harvest_html\<close> whenever it returns, and that constant is 50.
\<close>

theorem results_capped:
  "MAX_ITEMS_PER_SOURCE = 50 \<and>
   length (harvest_rss E url resp) \<le> MAX_ITEMS_PER_SOURCE \<and>
   (\<forall>entries. harvest_html E url resp = Inr entries \<longrightarrow>
      length entries \<le> MAX_ITEMS_PER_SOURCE)"
proof -
  have "length (harvest_rss E url resp) \<le> MAX_ITEMS_PER_SOURCE"
  proof (cases "feedparser_entries E (resp_content resp) = []")
    case True
    then show ?thesis by (simp add: harvest_rss_def)
  next
    case False
    have "length (rss_loop E (domain_from_url E url)
            (take MAX_ITEMS_PER_SOURCE (feedparser_entries E (resp_content resp))))
          \<le> length (take MAX_ITEMS_PER_SOURCE (feedparser_entries E (resp_content resp)))"
      by (rule length_rss_loop)
    with False show ?thesis by (simp add: harvest_rss_def)
  qed
  moreover have "length entries \<le> MAX_ITEMS_PER_SOURCE"
    if "harvest_html E url resp = Inr entries" for entries
  proof -
    from that have "length entries \<le> length (take MAX_ITEMS_PER_SOURCE
        (if article_candidates (BeautifulSoup E (resp_text resp)) = []
         then headline_candidates (BeautifulSoup E (resp_text resp))
         else article_candidates (BeautifulSoup E (resp_text resp))))"
      unfolding harvest_html_def Let_def by (rule length_normalize_loop)
    then show ?thesis by simp
  qed
  ultimately show ?thesis by (simp add: MAX_ITEMS_PER_SOURCE_def)
qed

theorem results_capped_witness:
  "MAX_ITEMS_PER_SOURCE = 50 \<and>
   length (harvest_rss example_env ''https://example.com/feed'' feed_response)
     \<le> MAX_ITEMS_PER_SOURCE \<and>
   harvest_html example_env ''https://example.com/'' page_response =
     Inr [(''2024-01-01'', ''example.com'', ''Story'', ''https://example.com/story'')] \<and>
   length [(''2024-01-01'', ''example.com'', ''Story'', ''https://example.com/story'')]
     \<le> MAX_ITEMS_PER_SOURCE"
proof -
  have h: "harvest_html example_env ''https://example.com/'' page_response =
     Inr [(''2024-01-01'', ''example.com'', ''Story'', ''https://example.com/story'')]"
    by code_simp
  from results_capped [of example_env "''https://example.com/feed''" feed_response]
    results_capped [of example_env "''https://example.com/''" page_response] h
  show ?thesis by blast
qed

lemma rss_loop_fields:
  "(date, domain, title, link) \<in> set (rss_loop E source_domain es) \<Longrightarrow>
   \<exists>e \<in> set es. title = strip (get_or_empty (entry_title e)) \<and>
     link = strip (get_or_empty (entry_link e)) \<and> title \<noteq> [] \<and> link \<noteq> []"
  by (induction es) (auto simp: Let_def split: if_splits)

lemma candidate_loop_nonempty:
  "(title, href) \<in> set (candidate_loop tags) \<Longrightarrow> title \<noteq> [] \<and> href \<noteq> []"
  by (induction tags) (auto simp: Let_def split: option.splits if_splits)

lemma normalize_loop_fields:
  "normalize_loop E url today source_domain seen cs = Inr entries \<Longrightarrow>
   (date, domain, title, link) \<in> set entries \<Longrightarrow>
   \<exists>href. (title, href) \<in> set cs \<and> urljoin E url href = Some link"
proof (induction cs arbitrary: seen entries)
  case Nil
  then show ?case by simp
next
  case (Cons c cs)
  obtain t h where c: "c = (t, h)" by (cases c) auto
  from Cons.prems(1) c obtain l where u: "urljoin E url h = Some l"
    by (cases "urljoin E url h") auto
  show ?case
  proof (cases "(t, l) \<in> seen")
    case True
    with Cons.prems(1) c u
    have "normalize_loop E url today source_domain seen cs = Inr entries"
      by simp
    from Cons.IH [OF this Cons.prems(2)] show ?thesis by auto
  next
    case False
    with Cons.prems(1) c u obtain es where
      es: "normalize_loop E url today source_domain (insert (t, l) seen) cs = Inr es"
      and e: "entries = (today, source_domain, t, l) # es"
      by (auto simp: Let_def split: sum.splits)
    from Cons.prems(2) e
    have "(date, domain, title, link) = (today, source_domain, t, l) \<or>
          (date, domain, title, link) \<in> set es"
      by simp
    then show ?thesis
    proof
      assume "(date, domain, title, link) = (today, source_domain, t, l)"
      with c u show ?thesis by auto
    next
      assume "(date, domain, title, link) \<in> set es"
      from Cons.IH [OF es this] show ?thesis by auto
    qed
  qed
qed

lemma harvest_rss_fields:
  assumes "(date, domain, title, link) \<in> set (harvest_rss E url resp)"
  shows "\<exists>e \<in> set (feedparser_entries E (resp_content resp)).
           title = strip (get_or_empty (entry_title e)) \<and>
           link = strip (get_or_empty (entry_link e)) \<and> title \<noteq> [] \<and> link \<noteq> []"
proof -
  from assms have "(date, domain, title, link) \<in> set (rss_loop E (domain_from_url E url)
            (take MAX_ITEMS_PER_SOURCE (feedparser_entries E (resp_content resp))))"
    by (auto simp: harvest_rss_def Let_def split: if_splits)
  from rss_loop_fields [OF this] show ?thesis
    by (meson in_set_takeD)
qed

lemma headline_candidates_nonempty:
  "(title, href) \<in> set (headline_candidates soup) \<Longrightarrow> title \<noteq> [] \<and> href \<noteq> []"
  using candidate_loop_nonempty by (auto simp: headline_candidates_def)

text \<open>Every record of the HTML path holds the resolution of a reference of the page.\<close>

lemma harvest_html_fields:
  assumes "harvest_html E url resp = Inr entries"
    and "(date, domain, title, link) \<in> set entries"
  shows "\<exists>href. title \<noteq> [] \<and> href \<noteq> [] \<and> urljoin E url href = Some link"
proof -
  let ?soup = "BeautifulSoup E (resp_text resp)"
  let ?cs = "if article_candidates ?soup = [] then headline_candidates ?soup
             else article_candidates ?soup"
  from assms(1) have "normalize_loop E url (today_iso E) (domain_from_url E url) {}
             (take MAX_ITEMS_PER_SOURCE ?cs) = Inr entries"
    by (simp add: harvest_html_def Let_def)
  from normalize_loop_fields [OF this assms(2)] obtain href where
    h: "(title, href) \<in> set (take MAX_ITEMS_PER_SOURCE ?cs)"
    and l: "urljoin E url href = Some link"
    by blast
  from h have "(title, href) \<in> set ?cs" by (rule in_set_takeD)
  then have "title \<noteq> [] \<and> href \<noteq> []"
    using candidate_loop_nonempty [of title href] headline_candidates_nonempty [of title href]
    by (auto simp: article_candidates_def split: if_splits)
  with l show ?thesis by blast
qed

text \<open>
  C6. Entries missing a title or link are skipped: every record that \<open>harvest_rss\<close>
  or \<open>harvest_html\<close> returns has a non-empty title and a non-empty link. In the HTML
  path the code tests the \<open>href\<close> and stores \<open>urljoin(url, href)\<close>; that the library
  resolves a non-empty reference against the outlet URL to a non-empty link is the
  hypothesis on \<open>urljoin\<close> (it holds for every URL that \<open>requests\<close> can fetch, which
  has the scheme http or https).
\<close>

theorem missing_title_or_link_skipped:
  assumes "\<forall>href link. href \<noteq> [] \<longrightarrow> urljoin E url href = Some link \<longrightarrow> link \<noteq> []"
    and "(date, domain, title, link) \<in> set (harvest_rss E url resp) \<or>
         (\<exists>entries. harvest_html E url resp = Inr entries \<and>
            (date, domain, title, link) \<in> set entries)"
  shows "title \<noteq> [] \<and> link \<noteq> []"
proof (cases "(date, domain, title, link) \<in> set (harvest_rss E url resp)")
  case True
  from harvest_rss_fields [OF this] show ?thesis by blast
next
  case False
  with assms(2) obtain entries where "harvest_html E url resp = Inr entries"
    "(date, domain, title, link) \<in> set entries"
    by blast
  from harvest_html_fields [OF this] obtain href where
    "title \<noteq> []" "href \<noteq> []" "urljoin E url href = Some link"
    by blast
  with assms(1) show ?thesis by blast
qed

theorem missing_title_or_link_skipped_witness:
  "(\<forall>href link. href = [] \<or> urljoin example_env ''https://example.com/'' href \<noteq> Some link
      \<or> link \<noteq> []) \<and>
   harvest_html example_env ''https://example.com/'' page_response =
     Inr [(''2024-01-01'', ''example.com'', ''Story'', ''https://example.com/story'')] \<and>
   (''2024-01-01'', ''example.com'', ''Story'', ''https://example.com/story'')
     \<in> set [(''2024-01-01'', ''example.com'', ''Story'', ''https://example.com/story'')] \<and>
   ''Story'' \<noteq> [] \<and> ''https://example.com/story'' \<noteq> []"
proof -
  have u: "\<forall>href link. href \<noteq> [] \<longrightarrow>
      urljoin example_env ''https://example.com/'' href = Some link \<longrightarrow> link \<noteq> []"
    by (auto simp: example_env_def)
  have h: "harvest_html example_env ''https://example.com/'' page_response =
     Inr [(''2024-01-01'', ''example.com'', ''Story'', ''https://example.com/story'')]"
    by code_simp
  then have m: "(''2024-01-01'', ''example.com'', ''Story'', ''https://example.com/story'')
       \<in> set (harvest_rss example_env ''https://example.com/'' page_response) \<or>
     (\<exists>entries. harvest_html example_env ''https://example.com/'' page_response = Inr entries \<and>
        (''2024-01-01'', ''example.com'', ''Story'', ''https://example.com/story'') \<in> set entries)"
    by simp
  from missing_title_or_link_skipped [OF u m] u h show ?thesis by auto
qed

text \<open>The feed path never consults \<open>urljoin\<close>.\<close>

lemma date_loop_urljoin:
  "date_loop (E\<lparr>urljoin := u\<rparr>) pub_date keys = date_loop E pub_date keys"
  by (induction E pub_date keys rule: date_loop.induct) (auto split: option.splits)

lemma rss_loop_urljoin:
  "rss_loop (E\<lparr>urljoin := u\<rparr>) source_domain es = rss_loop E source_domain es"
  by (induction es) (auto simp: Let_def today_iso_def date_loop_urljoin)

lemma harvest_rss_ignores_urljoin:
  "harvest_rss (E\<lparr>urljoin := u\<rparr>) url resp = harvest_rss E url resp"
  by (simp add: harvest_rss_def domain_from_url_def Let_def rss_loop_urljoin)

text \<open>
  C3. Relative links should be resolved against the outlet URL in both paths. The feed
  path does not: \<open>harvest_rss\<close> stores the entry's link as the feed parser gave it,
  stripped. For a feed entry whose link is \<open>/story\<close>, fetched from
  \<open>https://example.com/feed\<close>, the record holds \<open>/story\<close>, while the resolution is
  \<open>https://example.com/story\<close>; the HTML path stores the resolved link for the same
  reference.
\<close>

theorem feed_link_left_relative:
  "harvest_rss example_env ''https://example.com/feed'' feed_response =
     [(''2024-01-02'', ''example.com'', ''Story'', ''/story'')] \<and>
   urljoin example_env ''https://example.com/feed'' ''/story'' =
     Some ''https://example.com/story'' \<and>
   harvest_html example_env ''https://example.com/'' page_response =
     Inr [(''2024-01-01'', ''example.com'', ''Story'', ''https://example.com/story'')]"
  by code_simp

lemma startswith_scheme:
  assumes "startswith line ''http://'' \<or> startswith line ''https://''"
  shows "line \<noteq> []" and "\<not> startswith line ''#''"
proof -
  from assms show "line \<noteq> []"
    by (auto simp: startswith_def)
  from assms obtain cs where "line = CHR ''h'' # cs"
    by (cases line) (auto simp: startswith_def)
  then show "\<not> startswith line ''#''"
    by (simp add: startswith_def)
qed

lemma outlet_loop_filter:
  "outlet_loop ls =
     filter (\<lambda>line. startswith line ''http://'' \<or> startswith line ''https://'') (map strip ls)"
proof (induction ls)
  case Nil
  show ?case by simp
next
  case (Cons raw rest)
  show ?case
  proof (cases "startswith (strip raw) ''http://'' \<or> startswith (strip raw) ''https://''")
    case True
    from startswith_scheme [OF this] True Cons.IH show ?thesis
      by (simp add: Let_def)
  next
    case False
    with Cons.IH show ?thesis
      by (simp add: Let_def)
  qed
qed

text \<open>
  C10. \<open>read_outlet_urls\<close> returns exactly the stripped lines of the outlets file
  that start with \<open>http://\<close> or \<open>https://\<close>, in file order; these are the stripped
  lines that are not blank, are no comment and start with one of the two schemes.
  Every other line is dropped without a word.
\<close>

theorem outlet_urls_are_scheme_lines:
  "read_outlet_urls (Some text) =
     Inr (filter (\<lambda>line. startswith line ''http://'' \<or> startswith line ''https://'')
            (map strip (iter_lines [] (universal_newlines text)))) \<and>
   filter (\<lambda>line. startswith line ''http://'' \<or> startswith line ''https://'')
     (map strip (iter_lines [] (universal_newlines text))) =
   filter (\<lambda>line. line \<noteq> [] \<and> \<not> startswith line ''#'' \<and>
                  (startswith line ''http://'' \<or> startswith line ''https://''))
     (map strip (iter_lines [] (universal_newlines text)))"
proof -
  have "(\<lambda>line. startswith line ''http://'' \<or> startswith line ''https://'') =
        (\<lambda>line. line \<noteq> [] \<and> \<not> startswith line ''#'' \<and>
                  (startswith line ''http://'' \<or> startswith line ''https://''))"
    using startswith_scheme by blast
  then show ?thesis
    by (simp add: read_outlet_urls_def outlet_loop_filter)
qed

theorem outlet_urls_are_scheme_lines_witness:
  "read_outlet_urls (Some example_outlets) =
     Inr [''https://example.com/feed'', ''http://down.example/rss'', ''https://example.com/''] \<and>
   map strip (iter_lines [] (universal_newlines example_outlets)) =
     [''# outlets'', [], ''https://example.com/feed'', ''ftp://example.com/x'',
      ''http://down.example/rss'', ''https://example.com/'']"
proof -
  have l: "map strip (iter_lines [] (universal_newlines example_outlets)) =
     [''# outlets'', [], ''https://example.com/feed'', ''ftp://example.com/x'',
      ''http://down.example/rss'', ''https://example.com/'']"
    by code_simp
  have "filter (\<lambda>line. startswith line ''http://'' \<or> startswith line ''https://'')
     [''# outlets'', [], ''https://example.com/feed'', ''ftp://example.com/x'',
      ''http://down.example/rss'', ''https://example.com/''] =
     [''https://example.com/feed'', ''http://down.example/rss'', ''https://example.com/'']"
    by (simp add: startswith_def)
  with outlet_urls_are_scheme_lines [of example_outlets] l show ?thesis by simp
qed

lemma fetch_url_ok: "requests_get E url = Inr resp \<Longrightarrow> fetch_url E url = (Some resp, [])"
  by (simp add: fetch_url_def)


lemma date_loop_soup [simp]:
  "date_loop (E\<lparr>BeautifulSoup := b\<rparr>) pub_date keys = date_loop E pub_date keys"
  by (induction E pub_date keys rule: date_loop.induct) (auto split: option.splits)

lemma rss_loop_soup [simp]:
  "rss_loop (E\<lparr>BeautifulSoup := b\<rparr>) source_domain es = rss_loop E source_domain es"
  by (induction es) (auto simp: Let_def today_iso_def)

lemma harvest_rss_soup [simp]:
  "harvest_rss (E\<lparr>BeautifulSoup := b\<rparr>) url resp = harvest_rss E url resp"
  by (simp add: harvest_rss_def domain_from_url_def Let_def)

text \<open>The feed path returns no record exactly when every entry it looked at was skipped.\<close>

lemma rss_loop_empty:
  "(rss_loop E source_domain es = []) =
     list_all (\<lambda>e. strip (get_or_empty (entry_title e)) = [] \<or>
                   strip (get_or_empty (entry_link e)) = []) es"
  by (induction es) (auto simp: Let_def)

lemma harvest_rss_empty:
  "(harvest_rss E url resp = []) =
     list_all (\<lambda>e. strip (get_or_empty (entry_title e)) = [] \<or>
                   strip (get_or_empty (entry_link e)) = [])
       (take MAX_ITEMS_PER_SOURCE (feedparser_entries E (resp_content resp)))"
  by (cases "feedparser_entries E (resp_content resp) = []")
     (simp_all add: harvest_rss_def Let_def rss_loop_empty)

text \<open>
  C7, as amended. Extraction is two-tier with a fixed order. When the fetch succeeds,
  \<open>harvest_one_url\<close> returns the records of \<open>harvest_rss\<close> when there are any, and
  what the HTML heuristics give only when \<open>harvest_rss\<close> returned no record, which
  is the case exactly when each of the first \<open>MAX_ITEMS_PER_SOURCE\<close> entries of the
  parsed feed lacks a title or a link (so also when the feed has no entry); when
  \<open>harvest_rss\<close> returned records the result does not depend on the HTML parser at
  all. \<open>harvest_html\<close> works on the candidates of the \<open>article\<close> pass when there are
  any, and on those of the headline tags h1 to h3 only when the \<open>article\<close> pass
  produced none.
\<close>

theorem two_tier_extraction:
  assumes "requests_get E url = Inr resp"
  shows "harvest_one_url E url dry_run =
           (if harvest_rss E url resp \<noteq> []
            then Inr (harvest_rss E url resp,
                      [''[INFO] '' @ url @ '' -> RSS/Atom: ''
                         @ str_nat (length (harvest_rss E url resp)) @ '' entries''])
            else (case harvest_html E url resp of
                    Inl err \<Rightarrow> Inl err
                  | Inr html_entries \<Rightarrow>
                      Inr (html_entries,
                           [''[INFO] '' @ url @ '' -> HTML fallback: ''
                              @ str_nat (length html_entries) @ '' entries''])))
       \<and> (harvest_rss E url resp = []) =
           list_all (\<lambda>e. strip (get_or_empty (entry_title e)) = [] \<or>
                         strip (get_or_empty (entry_link e)) = [])
             (take MAX_ITEMS_PER_SOURCE (feedparser_entries E (resp_content resp)))
       \<and> (harvest_rss E url resp \<noteq> [] \<longrightarrow>
            harvest_one_url (E\<lparr>BeautifulSoup := b\<rparr>) url dry_run = harvest_one_url E url dry_run)
       \<and> harvest_html E url resp =
           normalize_loop E url (today_iso E) (domain_from_url E url) {}
             (take MAX_ITEMS_PER_SOURCE
                (if article_candidates (BeautifulSoup E (resp_text resp)) \<noteq> []
                 then article_candidates (BeautifulSoup E (resp_text resp))
                 else headline_candidates (BeautifulSoup E (resp_text resp))))"
proof -
  have one: "harvest_one_url E' url dry_run =
           (if harvest_rss E' url resp \<noteq> []
            then Inr (harvest_rss E' url resp,
                      [''[INFO] '' @ url @ '' -> RSS/Atom: ''
                         @ str_nat (length (harvest_rss E' url resp)) @ '' entries''])
            else (case harvest_html E' url resp of
                    Inl err \<Rightarrow> Inl err
                  | Inr html_entries \<Rightarrow>
                      Inr (html_entries,
                           [''[INFO] '' @ url @ '' -> HTML fallback: ''
                              @ str_nat (length html_entries) @ '' entries''])))"
    if "requests_get E' url = Inr resp" for E'
    using fetch_url_ok [OF that] by (simp add: harvest_one_url_def Let_def split: sum.splits)
  have soup: "requests_get (E\<lparr>BeautifulSoup := b\<rparr>) url = Inr resp"
    using assms by simp
  have indep: "harvest_rss E url resp \<noteq> [] \<longrightarrow>
      harvest_one_url (E\<lparr>BeautifulSoup := b\<rparr>) url dry_run = harvest_one_url E url dry_run"
    using one [OF assms] one [OF soup] by simp
  have html: "harvest_html E url resp =
           normalize_loop E url (today_iso E) (domain_from_url E url) {}
             (take MAX_ITEMS_PER_SOURCE
                (if article_candidates (BeautifulSoup E (resp_text resp)) \<noteq> []
                 then article_candidates (BeautifulSoup E (resp_text resp))
                 else headline_candidates (BeautifulSoup E (resp_text resp))))"
    by (simp add: harvest_html_def Let_def)
  note first = one [OF assms]
  note empty = harvest_rss_empty [of E url resp]
  show ?thesis
    by (intro conjI) (rule first, rule empty, rule indep, rule html)
qed

theorem two_tier_extraction_witness:
  "requests_get example_env ''https://example.com/'' = Inr page_response \<and>
   harvest_rss example_env ''https://example.com/'' page_response = [] \<and>
   article_candidates (BeautifulSoup example_env (resp_text page_response)) =
     [(''Story'', ''/story'')] \<and>
   headline_candidates (BeautifulSoup example_env (resp_text page_response)) =
     [(''Other'', ''/other'')] \<and>
   harvest_one_url example_env ''https://example.com/'' False =
     Inr ([(''2024-01-01'', ''example.com'', ''Story'', ''https://example.com/story'')],
          [''[INFO] https://example.com/ -> HTML fallback: 1 entries'']) \<and>
   requests_get example_env ''https://example.com/feed'' = Inr feed_response \<and>
   harvest_one_url example_env ''https://example.com/feed'' False =
     Inr ([(''2024-01-02'', ''example.com'', ''Story'', ''/story'')],
          [''[INFO] https://example.com/feed -> RSS/Atom: 1 entries'']) \<and>
   harvest_one_url (example_env\<lparr>BeautifulSoup := (\<lambda>text. NavigableString [])\<rparr>)
     ''https://example.com/feed'' False =
     harvest_one_url example_env ''https://example.com/feed'' False"
proof -
  have p: "requests_get example_env ''https://example.com/'' = Inr page_response"
    by (simp add: example_env_def)
  have f: "requests_get example_env ''https://example.com/feed'' = Inr feed_response"
    by (simp add: example_env_def)
  have r: "harvest_rss example_env ''https://example.com/'' page_response = []"
    by code_simp
  have r': "harvest_rss example_env ''https://example.com/feed'' feed_response =
      [(''2024-01-02'', ''example.com'', ''Story'', ''/story'')]"
    by code_simp
  have h: "harvest_html example_env ''https://example.com/'' page_response =
      Inr [(''2024-01-01'', ''example.com'', ''Story'', ''https://example.com/story'')]"
    by code_simp
  have a: "article_candidates (BeautifulSoup example_env (resp_text page_response)) =
      [(''Story'', ''/story'')]"
    by code_simp
  have hc: "headline_candidates (BeautifulSoup example_env (resp_text page_response)) =
      [(''Other'', ''/other'')]"
    by code_simp
  have n: "str_nat (Suc 0) = ''1''"
    by code_simp
  from two_tier_extraction [OF p, of False]
    two_tier_extraction [OF f, of False "\<lambda>text. NavigableString []"]
    p f r r' h a hc n
  show ?thesis by simp
qed

text \<open>
  C7 as stated fails where the parsed feed has entries and none of them is kept: the
  feed parser yields one entry, which has no title, \<open>harvest_rss\<close> returns no record,
  and the HTML heuristics run and supply the result.
\<close>

theorem html_runs_though_feed_has_entries:
  "length (feedparser_entries untitled_env (resp_content page_response)) = 1 \<and>
   requests_get untitled_env ''https://example.com/'' = Inr page_response \<and>
   harvest_rss untitled_env ''https://example.com/'' page_response = [] \<and>
   harvest_one_url untitled_env ''https://example.com/'' False =
     Inr ([(''2024-01-01'', ''example.com'', ''Story'', ''https://example.com/story'')],
          [''[INFO] https://example.com/ -> HTML fallback: 1 entries''])"
  by code_simp







text \<open>
  The exception of \<open>urljoin\<close> does end a run: the feed is harvested, the outlet that
  is down is skipped, and the page with the reference \<open>http://[::1\<close> ends the run.
\<close>

lemma malformed_href_aborts:
  "harvest_one_url broken_env ''https://example.com/'' False = Inl ValueError \<and>
   harvest_all_outlets broken_env (Some example_outlets) False = Inl ValueError"
  by code_simp

end
